theory Spec2Isabelle
  imports Main
begin

section \<open>Rosella: the status-bar controller and the scribe\<close>

text \<open>
  The program has two threads of control at any time: the main thread, which runs
  the Cocoa event loop and with it every method of \<open>StatusBarDelegate\<close>, and the
  thread that \<open>Scribe.start\<close> creates to run \<open>Scribe.record\<close>.  The model is
  an interleaving one.  The whole program state is one record; each method of the
  source is a function on it; a schedule is a list of events, each of which lets
  the main thread handle one click, run one deferred call, return from a blocked
  \<open>join\<close>, or lets one record thread execute its next statement.  What the
  collaborators answer (whether the button exists, what \<open>from_pretrained\<close>,
  the audio device and \<open>transcribe\<close> return or whether they raise) is carried
  by the event, so that a theorem over all schedules covers every answer.
\<close>

subsection \<open>Module constants\<close>

definition CHUNK :: nat where
  "CHUNK = 1024"

definition CHANNELS :: nat where
  "CHANNELS = 1"

text \<open>
  Two numbers the source takes from its libraries: the width in bytes of one
  sample, \<open>p.get_sample_size(FORMAT)\<close>, and the number of bytes that the
  \<open>wave\<close> module writes ahead of the frames.  They are parameters of the model.
\<close>

record platform =
  sample_size :: nat
  header_size :: nat

subsection \<open>Data\<close>

datatype State = ready | processing | recording

datatype icon = ready_icon | processing_icon | recording_icon

text \<open>The two bound methods that \<open>_update_state\<close> hands to \<open>AppHelper.callAfter\<close>.\<close>

datatype deferred = call_start_recording_flow | call_finish_recording_flow

datatype error =
    ModelLoadFailure
  | DeviceUnavailable
  | ReadFailure
  | TranscriptionFailure
  | AttributeError

text \<open>
  Where a thread running \<open>Scribe.record\<close> stands: before the device is opened,
  at the test of the \<open>while\<close> loop, inside the loop body, after the \<open>wave\<close>
  file has been closed, returned, or ended by an exception.
\<close>

datatype position = Opening | Looping | Reading | Closed | Finished | Raised error

record rthread =
  pc :: position
  written :: nat

fun terminated :: "rthread \<Rightarrow> bool" where
  "terminated th = (case pc th of Finished \<Rightarrow> True | Raised e \<Rightarrow> True | _ \<Rightarrow> False)"

text \<open>
  The fields of \<open>Scribe\<close>.  \<open>capture\<close> is first assigned in \<open>start\<close>; before
  that the attribute does not exist (\<open>None\<close> here).  \<open>record_thread\<close> holds the
  index of the thread in the list of all threads ever created.
\<close>

record Scribe =
  model :: "nat option"
  record_thread :: "nat option"
  result :: "string option"
  capture :: "bool option"

text \<open>The calls to collaborators, newest first.\<close>

datatype action =
    Load
  | Started nat
  | Written nat
  | SinkClosed nat
  | Transcribe nat
  | Joined nat
  | SetText string
  | Uncaught error

text \<open>The main thread is in the event loop or blocked in \<open>record_thread.join()\<close>.\<close>

datatype main_pc = EventLoop | InJoin nat

record app =
  state :: State
  image :: icon
  scribe :: Scribe
  pending :: "deferred list"
  main :: main_pc
  threads :: "rthread list"
  trace :: "action list"

text \<open>The state that \<open>applicationDidFinishLaunching_\<close> leaves.\<close>

definition init :: app where
  "init = \<lparr> state = ready, image = ready_icon,
            scribe = \<lparr> model = None, record_thread = None, result = None, capture = None \<rparr>,
            pending = [], main = EventLoop, threads = [], trace = [] \<rparr>"

subsection \<open>StatusBarDelegate\<close>

text \<open>\<open>_update_state\<close>; the argument says whether \<open>status_item.button()\<close> is not \<open>None\<close>.\<close>

definition update_state :: "bool \<Rightarrow> app \<Rightarrow> app" where
  "update_state button s =
     (if \<not> button then s
      else if state s = ready then
        s\<lparr> state := processing, image := processing_icon,
           pending := pending s @ [call_start_recording_flow] \<rparr>
      else if state s = recording then
        s\<lparr> state := processing, image := processing_icon,
           pending := pending s @ [call_finish_recording_flow] \<rparr>
      else s)"

text \<open>\<open>_paste_to_clipboard\<close>.\<close>

definition paste_to_clipboard :: "string \<Rightarrow> app \<Rightarrow> app" where
  "paste_to_clipboard text s = s\<lparr> trace := SetText text # trace s \<rparr>"

subsection \<open>Scribe\<close>

text \<open>
  \<open>init_model\<close>; the argument is what \<open>from_pretrained\<close> returns, \<open>None\<close> when
  it raises.  The first component of the result is the exception that leaves the
  method, if any.
\<close>

definition init_model :: "nat option \<Rightarrow> app \<Rightarrow> error option \<times> app" where
  "init_model loaded s =
     (let s1 = s\<lparr> trace := Load # trace s \<rparr>
      in case loaded of
           None \<Rightarrow> (Some ModelLoadFailure, s1)
         | Some m \<Rightarrow> (None, s1\<lparr> scribe := (scribe s1)\<lparr> model := Some m \<rparr> \<rparr>))"

text \<open>\<open>start\<close>: the new thread is alive from here on.\<close>

definition start :: "app \<Rightarrow> app" where
  "start s =
     (let tid = length (threads s)
      in s\<lparr> scribe := (scribe s)\<lparr> capture := Some True, record_thread := Some tid \<rparr>,
            threads := threads s @ [\<lparr> pc = Opening, written = 0 \<rparr>],
            trace := Started tid # trace s \<rparr>)"

text \<open>The bytes that one \<open>stream.read(CHUNK)\<close> returns: \<open>CHUNK\<close> frames.\<close>

definition chunk_bytes :: "platform \<Rightarrow> nat" where
  "chunk_bytes pf = CHUNK * sample_size pf * CHANNELS"

definition st_size :: "platform \<Rightarrow> rthread \<Rightarrow> nat" where
  "st_size pf th = header_size pf + written th"

definition set_pc :: "nat \<Rightarrow> position \<Rightarrow> app \<Rightarrow> app" where
  "set_pc tid p s = s\<lparr> threads := (threads s)[tid := (threads s ! tid)\<lparr> pc := p \<rparr>] \<rparr>"

text \<open>
  One statement of \<open>record\<close>, run by thread \<open>tid\<close>.  \<open>dev_ok\<close> says whether the
  audio call of this statement (\<open>p.open\<close>, \<open>stream.read\<close>) succeeds;
  \<open>transcript\<close> is the text of what \<open>model.transcribe\<close> returns, \<open>None\<close> when
  it raises.  An exception inside the \<open>with\<close> block closes the file on its way out.
  A thread that has ended, or an index that names no thread, does nothing.
\<close>

definition record_step :: "platform \<Rightarrow> nat \<Rightarrow> bool \<Rightarrow> string option \<Rightarrow> app \<Rightarrow> app" where
  "record_step pf tid dev_ok transcript s =
     (if length (threads s) \<le> tid then s
      else
        let th = threads s ! tid in
        case pc th of
          Opening \<Rightarrow>
            if dev_ok then set_pc tid Looping s
            else set_pc tid (Raised DeviceUnavailable) (s\<lparr> trace := SinkClosed tid # trace s \<rparr>)
        | Looping \<Rightarrow>
            (case capture (scribe s) of
               None \<Rightarrow> set_pc tid (Raised AttributeError) (s\<lparr> trace := SinkClosed tid # trace s \<rparr>)
             | Some True \<Rightarrow> set_pc tid Reading s
             | Some False \<Rightarrow> set_pc tid Closed (s\<lparr> trace := SinkClosed tid # trace s \<rparr>))
        | Reading \<Rightarrow>
            if dev_ok then
              s\<lparr> threads := (threads s)[tid := \<lparr> pc = Looping,
                     written = written th + chunk_bytes pf \<rparr>],
                 trace := Written tid # trace s \<rparr>
            else set_pc tid (Raised ReadFailure) (s\<lparr> trace := SinkClosed tid # trace s \<rparr>)
        | Closed \<Rightarrow>
            if CHUNK < st_size pf th then
              (let s1 = s\<lparr> trace := Transcribe tid # trace s \<rparr>
               in case transcript of
                    None \<Rightarrow> set_pc tid (Raised TranscriptionFailure) s1
                  | Some text \<Rightarrow>
                      set_pc tid Finished (s1\<lparr> scribe := (scribe s1)\<lparr> result := Some text \<rparr> \<rparr>))
            else set_pc tid Finished (s\<lparr> scribe := (scribe s)\<lparr> result := None \<rparr> \<rparr>)
        | Finished \<Rightarrow> s
        | Raised e \<Rightarrow> s)"

text \<open>
  \<open>stop\<close> blocks in \<open>join\<close>, so it is in two parts: up to the call of \<open>join\<close>
  (\<open>stop_enter\<close>), and the value it returns once \<open>join\<close> has returned
  (\<open>stop_return\<close>).
\<close>

definition stop_enter :: "app \<Rightarrow> error option \<times> app" where
  "stop_enter s =
     (let s1 = s\<lparr> scribe := (scribe s)\<lparr> capture := Some False \<rparr> \<rparr>
      in case record_thread (scribe s1) of
           None \<Rightarrow> (Some AttributeError, s1)
         | Some tid \<Rightarrow> (None, s1\<lparr> main := InJoin tid \<rparr>))"

definition stop_return :: "app \<Rightarrow> string option" where
  "stop_return s = result (scribe s)"

subsection \<open>The two deferred flows\<close>

text \<open>\<open>_start_recording_flow\<close>.\<close>

definition start_recording_flow :: "bool \<Rightarrow> nat option \<Rightarrow> app \<Rightarrow> app" where
  "start_recording_flow button loaded s =
     (if \<not> button then s
      else
        case (if model (scribe s) = None then init_model loaded s else (None, s)) of
          (Some e, s1) \<Rightarrow> s1\<lparr> trace := Uncaught e # trace s1 \<rparr>
        | (None, s1) \<Rightarrow> start (s1\<lparr> image := recording_icon, state := recording \<rparr>))"

text \<open>\<open>_finish_recording_flow\<close> up to the point where \<open>stop\<close> blocks.\<close>

definition finish_recording_flow :: "bool \<Rightarrow> app \<Rightarrow> app" where
  "finish_recording_flow button s =
     (if \<not> button then s
      else
        case stop_enter s of
          (Some e, s1) \<Rightarrow> s1\<lparr> trace := Uncaught e # trace s1 \<rparr>
        | (None, s1) \<Rightarrow> s1)"

text \<open>
  The rest of \<open>_finish_recording_flow\<close>, run when the joined thread has ended:
  \<open>join\<close> returns, \<open>stop\<close> returns \<open>self.result\<close>, and the flow goes on.
\<close>

definition finish_after_join :: "app \<Rightarrow> app" where
  "finish_after_join s =
     (case main s of
        EventLoop \<Rightarrow> s
      | InJoin tid \<Rightarrow>
          if tid < length (threads s) \<and> terminated (threads s ! tid) then
            (let s1 = s\<lparr> main := EventLoop, trace := Joined tid # trace s \<rparr>;
                 s2 = (case stop_return s1 of
                         None \<Rightarrow> s1
                       | Some text \<Rightarrow> paste_to_clipboard text s1)
             in s2\<lparr> state := ready, image := ready_icon \<rparr>)
          else s)"

subsection \<open>Schedules\<close>

datatype event =
    Click bool
  | Callback bool "nat option"
  | Wake
  | Run nat bool "string option"

text \<open>
  \<open>Click\<close> is \<open>statusItemClicked_\<close>; \<open>Callback\<close> lets the event loop run the
  oldest deferred call; both happen on the main thread, so neither happens while
  it is blocked in \<open>join\<close>.
\<close>

definition step :: "platform \<Rightarrow> event \<Rightarrow> app \<Rightarrow> app" where
  "step pf e s =
     (case e of
        Click button \<Rightarrow> (if main s = EventLoop then update_state button s else s)
      | Callback button loaded \<Rightarrow>
          (if main s = EventLoop then
             (case pending s of
                [] \<Rightarrow> s
              | f # q \<Rightarrow>
                  (case f of
                     call_start_recording_flow \<Rightarrow>
                       start_recording_flow button loaded (s\<lparr> pending := q \<rparr>)
                   | call_finish_recording_flow \<Rightarrow>
                       finish_recording_flow button (s\<lparr> pending := q \<rparr>)))
           else s)
      | Wake \<Rightarrow> finish_after_join s
      | Run tid dev_ok transcript \<Rightarrow> record_step pf tid dev_ok transcript s)"

fun run :: "platform \<Rightarrow> event list \<Rightarrow> app \<Rightarrow> app" where
  "run pf [] s = s"
| "run pf (e # es) s = run pf es (step pf e s)"

text \<open>The values that \<open>self.state\<close> takes along a schedule, the first one included.\<close>

fun visited :: "platform \<Rightarrow> event list \<Rightarrow> app \<Rightarrow> State list" where
  "visited pf [] s = [state s]"
| "visited pf (e # es) s = state s # visited pf es (step pf e s)"

definition alive :: "app \<Rightarrow> nat" where
  "alive s = length (filter (\<lambda>th. \<not> terminated th) (threads s))"

text \<open>A platform to evaluate on: 16-bit samples, the 44-byte header of a PCM wave file.\<close>

definition pcm16 :: platform where
  "pcm16 = \<lparr> sample_size = 2, header_size = 44 \<rparr>"

subsection \<open>The edges of the session state\<close>

text \<open>
  The four legs of the cycle Idle, Busy, Recording, Busy, and the value of
  \<open>self.state\<close> on each.  A list of values goes along the cycle from a leg when
  every value is that of the current leg or that of the next one, which then
  becomes the current leg.
\<close>

datatype leg = Idle | Starting | Capturing | Stopping

fun leg_state :: "leg \<Rightarrow> State" where
  "leg_state Idle = ready"
| "leg_state Starting = processing"
| "leg_state Capturing = recording"
| "leg_state Stopping = processing"

fun next_leg :: "leg \<Rightarrow> leg" where
  "next_leg Idle = Starting"
| "next_leg Starting = Capturing"
| "next_leg Capturing = Stopping"
| "next_leg Stopping = Idle"

fun along :: "leg \<Rightarrow> State list \<Rightarrow> bool" where
  "along l [] = True"
| "along l (x # xs) =
     (if x = leg_state l then along l xs
      else x = leg_state (next_leg l) \<and> along (next_leg l) xs)"

subsection \<open>Invariants of the reachable states\<close>

text \<open>
  What the controller keeps true: at most one deferred call is pending, and only
  while the state is \<open>processing\<close>; the main thread blocks only on the thread
  in \<open>record_thread\<close>; every thread other than that one has ended; and all
  threads have ended whenever the state is \<open>ready\<close> or a start is pending.
\<close>

definition ctl_inv :: "app \<Rightarrow> bool" where
  "ctl_inv s \<longleftrightarrow>
     length (pending s) \<le> 1 \<and>
     (state s \<noteq> processing \<longrightarrow> pending s = [] \<and> main s = EventLoop) \<and>
     (main s \<noteq> EventLoop \<longrightarrow> pending s = []) \<and>
     (\<forall>tid. main s = InJoin tid \<longrightarrow> record_thread (scribe s) = Some tid) \<and>
     (state s = ready \<or> call_start_recording_flow \<in> set (pending s) \<longrightarrow>
        (\<forall>i < length (threads s). terminated (threads s ! i))) \<and>
     (\<forall>i < length (threads s). record_thread (scribe s) \<noteq> Some i \<longrightarrow> terminated (threads s ! i))"

definition leg_inv :: "leg \<Rightarrow> app \<Rightarrow> bool" where
  "leg_inv l s \<longleftrightarrow>
     state s = leg_state l \<and>
     (case l of
        Idle \<Rightarrow> pending s = [] \<and> main s = EventLoop
      | Starting \<Rightarrow> main s = EventLoop \<and> (pending s = [] \<or> pending s = [call_start_recording_flow])
      | Capturing \<Rightarrow> pending s = [] \<and> main s = EventLoop
      | Stopping \<Rightarrow> pending s = [] \<or> (pending s = [call_finish_recording_flow] \<and> main s = EventLoop))"

text \<open>
  The model is loaded at most once; if the load has been tried and there is no
  model, the controller is in \<open>processing\<close> with nothing pending.
\<close>

definition load_inv :: "app \<Rightarrow> bool" where
  "load_inv s \<longleftrightarrow>
     count_list (trace s) Load \<le> 1 \<and>
     (model (scribe s) = None \<and> Load \<in> set (trace s) \<longrightarrow>
        state s = processing \<and> pending s = [] \<and> main s = EventLoop)"

text \<open>A state that no event changes.\<close>

definition stranded :: "app \<Rightarrow> bool" where
  "stranded s \<longleftrightarrow>
     state s = processing \<and> pending s = [] \<and> main s = EventLoop \<and>
     (\<forall>i < length (threads s). terminated (threads s ! i))"

subsection \<open>Two schedules to evaluate on\<close>

text \<open>
  A whole session: click, start flow (the model loads), the thread opens the
  device and writes one chunk, click, finish flow, the thread leaves the loop and
  transcribes, \<open>join\<close> returns.  Then a second one on the second thread.
\<close>

definition first_session :: "event list" where
  "first_session =
     [Click True, Callback True (Some 7), Run 0 True None, Run 0 True None, Run 0 True None,
      Click True, Callback True None, Run 0 True None, Run 0 True (Some ''hi''), Wake]"

definition second_session :: "event list" where
  "second_session =
     [Click True, Callback True (Some 8), Run 1 True None, Run 1 True None, Run 1 True None,
      Click True, Callback True None, Run 1 True None, Run 1 True (Some ''yo''), Wake]"

subsection \<open>What was put on the clipboard\<close>

text \<open>The texts handed to \<open>setString_forType_\<close>, newest first.\<close>

fun texts :: "action list \<Rightarrow> string list" where
  "texts [] = []"
| "texts (SetText t # as) = t # texts as"
| "texts (a # as) = texts as"

subsection \<open>Invariants of the capture flag and of the file\<close>

text \<open>
  While the main thread is in the event loop and some thread is alive,
  \<open>capture\<close> is true; a thread is past its loop only while the main thread is
  blocked joining it.  Every file holds a whole number of chunks.
\<close>

definition cap_inv :: "app \<Rightarrow> bool" where
  "cap_inv s \<longleftrightarrow>
     (main s = EventLoop \<and> (\<exists>i < length (threads s). \<not> terminated (threads s ! i)) \<longrightarrow>
        capture (scribe s) = Some True) \<and>
     (\<forall>i < length (threads s). pc (threads s ! i) = Closed \<longrightarrow> main s = InJoin i)"

definition whole_chunks :: "platform \<Rightarrow> app \<Rightarrow> bool" where
  "whole_chunks pf s \<longleftrightarrow> (\<forall>i < length (threads s). chunk_bytes pf dvd written (threads s ! i))"

subsection \<open>More schedules to evaluate on\<close>

text \<open>
  A session whose transcript is the empty string, up to the return of \<open>join\<close>;
  a second session up to the point where its thread has closed the file; and a
  session that is stopped before its thread has read anything.
\<close>

definition silent_session :: "event list" where
  "silent_session =
     [Click True, Callback True (Some 7), Run 0 True None, Run 0 True None, Run 0 True None,
      Click True, Callback True None, Run 0 True None, Run 0 True (Some '''')]"

definition second_until_closed :: "event list" where
  "second_until_closed =
     [Click True, Callback True None, Run 1 True None, Run 1 True None, Run 1 True None,
      Click True, Callback True None, Run 1 True None]"

definition short_until_closed :: "event list" where
  "short_until_closed =
     [Click True, Callback True (Some 7), Click True, Callback True None,
      Run 0 True None, Run 0 True None]"

subsection \<open>The order of the calls\<close>

text \<open>
  In a trace, which is newest first, \<open>a\<close> happens before \<open>b\<close> when some
  occurrence of \<open>b\<close> has an occurrence of \<open>a\<close> among the older entries.
\<close>

fun happens_before :: "action \<Rightarrow> action \<Rightarrow> action list \<Rightarrow> bool" where
  "happens_before a b [] = False"
| "happens_before a b (x # older) = ((x = b \<and> a \<in> set older) \<or> happens_before a b older)"

text \<open>
  A trace is ordered when every call of \<open>transcribe\<close> by a thread comes after
  that thread closed its file and before any \<open>join\<close> on it returned, and every
  write to a file comes before the file is closed.
\<close>

fun ordered :: "action list \<Rightarrow> bool" where
  "ordered [] = True"
| "ordered (Transcribe t # older) =
     (SinkClosed t \<in> set older \<and> Joined t \<notin> set older \<and> ordered older)"
| "ordered (Written t # older) = (SinkClosed t \<notin> set older \<and> ordered older)"
| "ordered (a # older) = ordered older"

fun writing :: "rthread \<Rightarrow> bool" where
  "writing th = (pc th = Opening \<or> pc th = Looping \<or> pc th = Reading)"

definition log_inv :: "app \<Rightarrow> bool" where
  "log_inv s \<longleftrightarrow>
     ordered (trace s) \<and>
     (\<forall>i. (i < length (threads s) \<and> writing (threads s ! i) \<longrightarrow> SinkClosed i \<notin> set (trace s)) \<and>
          (i < length (threads s) \<and> pc (threads s ! i) = Closed \<longrightarrow> SinkClosed i \<in> set (trace s)) \<and>
          (i < length (threads s) \<and> \<not> terminated (threads s ! i) \<longrightarrow> Joined i \<notin> set (trace s)) \<and>
          (length (threads s) \<le> i \<longrightarrow> SinkClosed i \<notin> set (trace s) \<and> Joined i \<notin> set (trace s)))"

text \<open>
  From the \<open>start\<close> that creates thread \<open>n\<close> until the next one: the older
  threads have ended, and \<open>result\<close> is still \<open>r\<close> unless thread \<open>n\<close> has
  returned.
\<close>

definition session_inv :: "nat \<Rightarrow> string option \<Rightarrow> app \<Rightarrow> bool" where
  "session_inv n r s \<longleftrightarrow>
     Suc n \<le> length (threads s) \<and>
     (length (threads s) = Suc n \<longrightarrow>
        (\<forall>i < n. terminated (threads s ! i)) \<and>
        (pc (threads s ! n) \<noteq> Finished \<longrightarrow> result (scribe s) = r))"

section \<open>Properties\<close>

subsection \<open>What a step of a record thread leaves alone\<close>

lemma record_step_fields [simp]:
  "state (record_step pf tid ok tr s) = state s"
  "image (record_step pf tid ok tr s) = image s"
  "pending (record_step pf tid ok tr s) = pending s"
  "main (record_step pf tid ok tr s) = main s"
  "model (scribe (record_step pf tid ok tr s)) = model (scribe s)"
  "record_thread (scribe (record_step pf tid ok tr s)) = record_thread (scribe s)"
  "capture (scribe (record_step pf tid ok tr s)) = capture (scribe s)"
  "length (threads (record_step pf tid ok tr s)) = length (threads s)"
  by (auto simp: record_step_def set_pc_def Let_def split: position.splits option.splits bool.splits)

lemma record_step_other:
  "i \<noteq> tid \<Longrightarrow> threads (record_step pf tid ok tr s) ! i = threads s ! i"
  by (auto simp: record_step_def set_pc_def Let_def split: position.splits option.splits bool.splits)

lemma record_step_terminated:
  "tid < length (threads s) \<Longrightarrow> terminated (threads s ! tid) \<Longrightarrow> record_step pf tid ok tr s = s"
  by (auto simp: record_step_def set_pc_def Let_def split: position.splits option.splits bool.splits)

lemma record_step_beyond:
  "length (threads s) \<le> tid \<Longrightarrow> record_step pf tid ok tr s = s"
  by (simp add: record_step_def)

subsection \<open>The controller's invariant\<close>

lemma ctl_inv_init: "ctl_inv init"
  by (simp add: ctl_inv_def init_def)

lemma ctl_inv_click: "ctl_inv s \<Longrightarrow> ctl_inv (update_state b s)"
  by (auto simp: ctl_inv_def update_state_def)

lemma ctl_inv_run_thread: "ctl_inv s \<Longrightarrow> ctl_inv (record_step pf tid ok tr s)"
proof (cases "tid < length (threads s) \<and> \<not> terminated (threads s ! tid)")
  case False
  then have "record_step pf tid ok tr s = s"
    using record_step_terminated record_step_beyond by (cases "tid < length (threads s)") auto
  then show "ctl_inv s \<Longrightarrow> ?thesis" by simp
next
  case True
  assume inv: "ctl_inv s"
  from True inv have rt: "record_thread (scribe s) = Some tid"
    unfolding ctl_inv_def by blast
  from True inv have st: "state s \<noteq> ready" "call_start_recording_flow \<notin> set (pending s)"
    unfolding ctl_inv_def by blast+
  show ?thesis
    unfolding ctl_inv_def
    using inv st rt by (auto simp: ctl_inv_def record_step_other)
qed

lemma ctl_inv_start_flow:
  "ctl_inv (s\<lparr> pending := call_start_recording_flow # q \<rparr>) \<Longrightarrow> main s = EventLoop \<Longrightarrow>
   ctl_inv (start_recording_flow b m (s\<lparr> pending := q \<rparr>))"
  by (auto simp: ctl_inv_def start_recording_flow_def init_model_def start_def Let_def nth_append
           split: option.splits)

lemma ctl_inv_finish_flow:
  "ctl_inv (s\<lparr> pending := call_finish_recording_flow # q \<rparr>) \<Longrightarrow> main s = EventLoop \<Longrightarrow>
   ctl_inv (finish_recording_flow b (s\<lparr> pending := q \<rparr>))"
  by (auto simp: ctl_inv_def finish_recording_flow_def stop_enter_def Let_def
           split: option.splits)

lemma ctl_inv_wake: "ctl_inv s \<Longrightarrow> ctl_inv (finish_after_join s)"
  by (auto simp: ctl_inv_def finish_after_join_def stop_return_def paste_to_clipboard_def Let_def
           split: option.splits main_pc.splits)

lemma ctl_inv_step: "ctl_inv s \<Longrightarrow> ctl_inv (step pf e s)"
proof (cases e)
  case (Click b)
  then show "ctl_inv s \<Longrightarrow> ?thesis" by (simp add: step_def ctl_inv_click)
next
  case (Callback b m)
  assume inv: "ctl_inv s"
  show ?thesis
  proof (cases "main s = EventLoop")
    case False
    then show ?thesis using inv Callback by (simp add: step_def)
  next
    case True
    show ?thesis
    proof (cases "pending s")
      case Nil
      then show ?thesis using inv Callback by (simp add: step_def)
    next
      case (Cons f q)
      then have "s\<lparr> pending := f # q \<rparr> = s" by simp
      with inv have "ctl_inv (s\<lparr> pending := f # q \<rparr>)" by simp
      then show ?thesis using True Cons Callback ctl_inv_start_flow ctl_inv_finish_flow
        by (cases f) (simp_all add: step_def)
    qed
  qed
next
  case Wake
  then show "ctl_inv s \<Longrightarrow> ?thesis" by (simp add: step_def ctl_inv_wake)
next
  case (Run tid ok tr)
  then show "ctl_inv s \<Longrightarrow> ?thesis" by (simp add: step_def ctl_inv_run_thread)
qed

lemma ctl_inv_run: "ctl_inv s \<Longrightarrow> ctl_inv (run pf evs s)"
  by (induction evs arbitrary: s) (simp_all add: ctl_inv_step)

lemma ctl_inv_reachable: "ctl_inv (run pf evs init)"
  by (rule ctl_inv_run [OF ctl_inv_init])

subsection \<open>The session state goes round the cycle\<close>

lemma leg_inv_init: "leg_inv Idle init"
  by (simp add: leg_inv_def init_def)

lemma leg_inv_click:
  "leg_inv l s \<Longrightarrow> main s = EventLoop \<Longrightarrow>
   leg_inv l (update_state b s) \<or> leg_inv (next_leg l) (update_state b s)"
  by (cases l) (auto simp: leg_inv_def update_state_def)

lemma leg_inv_callback:
  "leg_inv l s \<Longrightarrow> main s = EventLoop \<Longrightarrow>
   leg_inv l (step pf (Callback b m) s) \<or> leg_inv (next_leg l) (step pf (Callback b m) s)"
  by (cases l)
     (auto simp: leg_inv_def step_def start_recording_flow_def finish_recording_flow_def
                 init_model_def start_def stop_enter_def Let_def
           split: option.splits list.splits deferred.splits)

lemma leg_inv_wake:
  "leg_inv l s \<Longrightarrow> leg_inv l (finish_after_join s) \<or> leg_inv (next_leg l) (finish_after_join s)"
  by (cases l)
     (auto simp: leg_inv_def finish_after_join_def stop_return_def paste_to_clipboard_def Let_def
           split: option.splits main_pc.splits)

lemma leg_inv_thread: "leg_inv l s \<Longrightarrow> leg_inv l (record_step pf tid ok tr s)"
  by (cases l) (simp_all add: leg_inv_def)

lemma leg_inv_step:
  "leg_inv l s \<Longrightarrow> leg_inv l (step pf e s) \<or> leg_inv (next_leg l) (step pf e s)"
proof (cases e)
  case (Click b)
  assume "leg_inv l s"
  then show ?thesis using Click leg_inv_click [of l s b]
    by (cases "main s = EventLoop") (simp_all add: step_def)
next
  case (Callback b m)
  assume "leg_inv l s"
  then show ?thesis using Callback leg_inv_callback [of l s pf b m]
    by (cases "main s = EventLoop") (simp_all add: step_def)
next
  case Wake
  then show "leg_inv l s \<Longrightarrow> ?thesis" using leg_inv_wake [of l s] by (simp add: step_def)
next
  case (Run tid ok tr)
  then show "leg_inv l s \<Longrightarrow> ?thesis" by (simp add: step_def leg_inv_thread)
qed

lemma leg_state_next: "leg_state (next_leg l) \<noteq> leg_state l"
  by (cases l) simp_all

lemma visited_head: "\<exists>xs. visited pf evs s = state s # xs"
  by (cases evs) simp_all

lemma along_visited: "leg_inv l s \<Longrightarrow> along l (visited pf evs s)"
proof (induction evs arbitrary: l s)
  case Nil
  then show ?case by (simp add: leg_inv_def)
next
  case (Cons e es)
  from Cons.prems have here: "state s = leg_state l" by (simp add: leg_inv_def)
  from leg_inv_step [OF Cons.prems, of pf e]
  show ?case
  proof
    assume "leg_inv l (step pf e s)"
    then have "along l (visited pf es (step pf e s))" by (rule Cons.IH)
    with here show ?thesis by simp
  next
    assume nxt: "leg_inv (next_leg l) (step pf e s)"
    then have a: "along (next_leg l) (visited pf es (step pf e s))" by (rule Cons.IH)
    obtain xs where v: "visited pf es (step pf e s) = state (step pf e s) # xs"
      using visited_head by blast
    from nxt have st: "state (step pf e s) = leg_state (next_leg l)" by (simp add: leg_inv_def)
    from a v st have "along l (visited pf es (step pf e s))"
      by (simp add: leg_state_next)
    with here show ?thesis by simp
  qed
qed

lemma update_state_busy: "state s = processing \<Longrightarrow> update_state b s = s"
  by (simp add: update_state_def)

text \<open>
  C1.  Along every schedule the values of the session state follow the cycle
  Idle, Busy, Recording, Busy, Idle and so on, staying on a value or moving to
  the next one; and \<open>_update_state\<close> called while the state is Busy returns the
  program state as it was, so neither the session state nor the number of live
  threads changes.
\<close>

theorem toggle_edges:
  "along Idle (visited pf evs init) \<and>
   (state (run pf evs init) = processing \<longrightarrow>
      update_state button (run pf evs init) = run pf evs init \<and>
      step pf (Click button) (run pf evs init) = run pf evs init)"
  using along_visited [OF leg_inv_init] by (simp add: step_def update_state_busy)

theorem toggle_edges_witness:
  "along Idle (visited pcm16 [Click True] init) \<and>
   state (run pcm16 [Click True] init) = processing \<and>
   step pcm16 (Click True) (run pcm16 [Click True] init) = run pcm16 [Click True] init"
  using toggle_edges [of pcm16 "[Click True]" True]
  by (simp add: step_def update_state_def init_def)

subsection \<open>One live thread at most\<close>

lemma filter_at_most_one:
  "\<forall>i < length xs. i \<noteq> t \<longrightarrow> \<not> P (xs ! i) \<Longrightarrow> length (filter P xs) \<le> 1"
proof (induction xs arbitrary: t)
  case Nil
  then show ?case by simp
next
  case (Cons x xs)
  show ?case
  proof (cases t)
    case 0
    with Cons.prems have "\<forall>i < length xs. \<not> P (xs ! i)" by auto
    then have "filter P xs = []" by (auto simp: filter_empty_conv in_set_conv_nth)
    then show ?thesis by simp
  next
    case (Suc t')
    with Cons.prems have "\<not> P x" by auto
    moreover from Suc Cons.prems have "\<forall>i < length xs. i \<noteq> t' \<longrightarrow> \<not> P (xs ! i)" by auto
    then have "length (filter P xs) \<le> 1" by (rule Cons.IH)
    ultimately show ?thesis by simp
  qed
qed

lemma alive_zero: "alive s = 0 \<longleftrightarrow> (\<forall>i < length (threads s). terminated (threads s ! i))"
  by (simp add: alive_def filter_empty_conv all_set_conv_all_nth del: terminated.simps)

lemma ctl_inv_alive: "ctl_inv s \<Longrightarrow> alive s \<le> 1"
proof (cases "record_thread (scribe s)")
  case None
  assume "ctl_inv s"
  with None have "\<forall>i < length (threads s). i \<noteq> 0 \<longrightarrow> \<not> \<not> terminated (threads s ! i)"
    by (simp add: ctl_inv_def)
  then show ?thesis unfolding alive_def by (rule filter_at_most_one)
next
  case (Some t)
  assume "ctl_inv s"
  with Some have "\<forall>i < length (threads s). i \<noteq> t \<longrightarrow> \<not> \<not> terminated (threads s ! i)"
    by (simp add: ctl_inv_def)
  then show ?thesis unfolding alive_def by (rule filter_at_most_one)
qed

lemma threads_grow:
  "length (threads s) < length (threads (step pf e s)) \<Longrightarrow>
   call_start_recording_flow \<in> set (pending s)"
  by (cases e)
     (auto simp: step_def update_state_def start_recording_flow_def finish_recording_flow_def
                 init_model_def start_def stop_enter_def finish_after_join_def
                 paste_to_clipboard_def Let_def
           split: option.splits list.splits deferred.splits if_splits main_pc.splits)

text \<open>
  C2.  After every schedule at most one thread running \<open>record\<close> is alive, and
  a step that creates a thread (the only one that does is the start flow calling
  \<open>Scribe.start\<close>) is taken only when no thread is alive.
\<close>

theorem one_session:
  "alive (run pf evs init) \<le> 1 \<and>
   (length (threads (run pf evs init)) < length (threads (step pf e (run pf evs init))) \<longrightarrow>
      alive (run pf evs init) = 0)"
proof -
  have inv: "ctl_inv (run pf evs init)" by (rule ctl_inv_reachable)
  then have "alive (run pf evs init) \<le> 1" by (rule ctl_inv_alive)
  moreover have "alive (run pf evs init) = 0"
    if "length (threads (run pf evs init)) < length (threads (step pf e (run pf evs init)))"
  proof -
    from that have "call_start_recording_flow \<in> set (pending (run pf evs init))"
      by (rule threads_grow)
    with inv show ?thesis unfolding alive_zero ctl_inv_def by blast
  qed
  ultimately show ?thesis by blast
qed

theorem one_session_witness:
  "alive (run pcm16 [Click True] init) \<le> 1 \<and>
   length (threads (run pcm16 [Click True] init))
     < length (threads (step pcm16 (Callback True (Some 0)) (run pcm16 [Click True] init))) \<and>
   alive (run pcm16 [Click True] init) = 0"
  using one_session [of pcm16 "[Click True]" "Callback True (Some 0)"]
  by (simp add: step_def update_state_def init_def start_recording_flow_def init_model_def
                start_def Let_def)

subsection \<open>The model is loaded once\<close>

lemma load_inv_init: "load_inv init"
  by (simp add: load_inv_def init_def)

lemma record_step_loads [simp]:
  "count_list (trace (record_step pf tid ok tr s)) Load = count_list (trace s) Load"
  "Load \<in> set (trace (record_step pf tid ok tr s)) \<longleftrightarrow> Load \<in> set (trace s)"
  by (auto simp: record_step_def set_pc_def Let_def split: position.splits option.splits bool.splits)

lemma load_inv_step: "ctl_inv s \<Longrightarrow> load_inv s \<Longrightarrow> load_inv (step pf e s)"
proof (cases e)
  case (Click b)
  then show "load_inv s \<Longrightarrow> ?thesis"
    by (auto simp: load_inv_def step_def update_state_def)
next
  case (Callback b m)
  assume c: "ctl_inv s" and l: "load_inv s"
  show ?thesis
  proof (cases "pending s")
    case Nil
    with l Callback show ?thesis by (simp add: step_def)
  next
    case (Cons f q)
    with c have q: "q = []" and st: "state s = processing"
      by (auto simp: ctl_inv_def)
    from Cons l have fresh: "model (scribe s) = None \<Longrightarrow> count_list (trace s) Load = 0"
      by (auto simp: load_inv_def)
    from l Callback Cons q st fresh show ?thesis
      by (cases f)
         (auto simp: load_inv_def step_def start_recording_flow_def finish_recording_flow_def
                     init_model_def start_def stop_enter_def Let_def
               split: option.splits)
  qed
next
  case Wake
  then show "load_inv s \<Longrightarrow> ?thesis"
    by (auto simp: load_inv_def step_def finish_after_join_def stop_return_def
                   paste_to_clipboard_def Let_def
             split: option.splits main_pc.splits)
next
  case (Run tid ok tr)
  then show "load_inv s \<Longrightarrow> ?thesis" by (simp add: load_inv_def step_def)
qed

lemma load_inv_run: "ctl_inv s \<Longrightarrow> load_inv s \<Longrightarrow> load_inv (run pf evs s)"
  by (induction evs arbitrary: s) (simp_all add: ctl_inv_step load_inv_step)

lemma loaded_step:
  "model (scribe s) = Some m \<Longrightarrow>
   model (scribe (step pf e s)) = Some m \<and>
   count_list (trace (step pf e s)) Load = count_list (trace s) Load"
  by (cases e)
     (auto simp: step_def update_state_def start_recording_flow_def finish_recording_flow_def
                 start_def stop_enter_def finish_after_join_def stop_return_def
                 paste_to_clipboard_def Let_def
           split: option.splits list.splits deferred.splits main_pc.splits)

lemma loaded_run:
  "model (scribe s) = Some m \<Longrightarrow>
   model (scribe (run pf evs s)) = Some m \<and>
   count_list (trace (run pf evs s)) Load = count_list (trace s) Load"
proof (induction evs arbitrary: s)
  case Nil
  then show ?case by simp
next
  case (Cons e es)
  from loaded_step [OF Cons.prems, of pf e] Cons.IH [of "step pf e s"]
  show ?case by simp
qed

text \<open>
  C8.  Along every schedule \<open>from_pretrained\<close> is called at most once; and once
  \<open>Scribe.model\<close> holds a model, whatever happens later leaves that same model
  in place and makes no further call of \<open>from_pretrained\<close>.
\<close>

theorem model_loaded_once:
  "count_list (trace (run pf evs init)) Load \<le> 1 \<and>
   (model (scribe (run pf evs init)) = Some m \<longrightarrow>
      model (scribe (run pf later (run pf evs init))) = Some m \<and>
      count_list (trace (run pf later (run pf evs init))) Load
        = count_list (trace (run pf evs init)) Load)"
  using load_inv_run [OF ctl_inv_init load_inv_init, of pf evs] loaded_run [of "run pf evs init" m pf later]
  by (simp add: load_inv_def)

lemma first_session_state:
  "run pcm16 first_session init =
     \<lparr> state = ready, image = ready_icon,
       scribe = \<lparr> model = Some 7, record_thread = Some 0, result = Some ''hi'',
                  capture = Some False \<rparr>,
       pending = [], main = EventLoop,
       threads = [\<lparr> pc = Finished, written = 2048 \<rparr>],
       trace = [SetText ''hi'', Joined 0, Transcribe 0, SinkClosed 0, Written 0, Started 0, Load] \<rparr>"
  by (simp add: first_session_def step_def update_state_def init_def start_recording_flow_def
                finish_recording_flow_def init_model_def start_def stop_enter_def
                finish_after_join_def stop_return_def paste_to_clipboard_def record_step_def
                set_pc_def st_size_def chunk_bytes_def CHUNK_def CHANNELS_def pcm16_def Let_def)

theorem model_loaded_once_witness:
  "count_list (trace (run pcm16 first_session init)) Load \<le> 1 \<and>
   model (scribe (run pcm16 first_session init)) = Some 7 \<and>
   model (scribe (run pcm16 second_session (run pcm16 first_session init))) = Some 7 \<and>
   count_list (trace (run pcm16 second_session (run pcm16 first_session init))) Load
     = count_list (trace (run pcm16 first_session init)) Load"
  using model_loaded_once [of pcm16 first_session 7 second_session]
  by (simp add: first_session_state)

subsection \<open>A failed load strands the controller\<close>

lemma stranded_step: "stranded s \<Longrightarrow> step pf e s = s"
proof (cases e)
  case (Run tid ok tr)
  assume "stranded s"
  then have "record_step pf tid ok tr s = s"
    using record_step_terminated record_step_beyond
    by (cases "tid < length (threads s)") (auto simp: stranded_def)
  with Run show ?thesis by (simp add: step_def)
qed (auto simp: stranded_def step_def update_state_def finish_after_join_def)

lemma stranded_run: "stranded s \<Longrightarrow> run pf evs s = s"
  by (induction evs) (simp_all add: stranded_step)

lemma start_flow_load_fails:
  "model (scribe s) = None \<Longrightarrow>
   start_recording_flow True None s = s\<lparr> trace := Uncaught ModelLoadFailure # Load # trace s \<rparr>"
  by (simp add: start_recording_flow_def init_model_def)

text \<open>
  C4, as the code has it.  When \<open>from_pretrained\<close> raises in the start flow,
  the exception leaves \<open>_start_recording_flow\<close> before the state is assigned:
  the state stays \<open>processing\<close> and no later event changes anything, no thread
  is created, the scribe's fields are as before, and nothing but the load and the
  uncaught exception is added to the calls made.
\<close>

theorem load_failure_strands:
  assumes "s = run pf evs init"
    and "pending s = call_start_recording_flow # q"
    and "model (scribe s) = None"
    and "s' = step pf (Callback True None) s"
  shows "state s' = processing \<and> run pf later s' = s' \<and>
         threads s' = threads s \<and> scribe s' = scribe s \<and>
         trace s' = Uncaught ModelLoadFailure # Load # trace s"
proof -
  have inv: "ctl_inv s" using assms(1) by (simp add: ctl_inv_reachable)
  with assms(2) have q: "q = []" and m: "main s = EventLoop" and st: "state s = processing"
    and dead: "\<forall>i < length (threads s). terminated (threads s ! i)"
    by (auto simp: ctl_inv_def simp del: terminated.simps)
  from assms(2,3,4) q m
  have s': "s' = s\<lparr> pending := [], trace := Uncaught ModelLoadFailure # Load # trace s \<rparr>"
    by (simp add: step_def start_flow_load_fails)
  with st m dead have "stranded s'" by (simp add: stranded_def)
  then have "run pf later s' = s'" by (rule stranded_run)
  with s' st show ?thesis by simp
qed

theorem load_failure_strands_witness:
  "state (step pcm16 (Callback True None) (run pcm16 [Click True] init)) = processing \<and>
   run pcm16 [Click True, Callback True (Some 7)]
       (step pcm16 (Callback True None) (run pcm16 [Click True] init))
     = step pcm16 (Callback True None) (run pcm16 [Click True] init) \<and>
   trace (step pcm16 (Callback True None) (run pcm16 [Click True] init))
     = [Uncaught ModelLoadFailure, Load]"
  using load_failure_strands [of "run pcm16 [Click True] init" pcm16 "[Click True]" "[]"
      "step pcm16 (Callback True None) (run pcm16 [Click True] init)"
      "[Click True, Callback True (Some 7)]"]
  by (simp add: step_def update_state_def init_def)

text \<open>
  C4 as stated fails: after a failed load the state is still \<open>processing\<close>,
  also after more clicks and deferred calls.
\<close>

theorem load_failure_counterexample:
  "state (run pcm16 [Click True, Callback True None, Wake, Click True, Callback True (Some 7)] init)
     = processing"
  by (simp add: step_def update_state_def init_def start_recording_flow_def init_model_def
                finish_after_join_def)

subsection \<open>A device that cannot be opened\<close>

lemma open_fails:
  "tid < length (threads s) \<Longrightarrow> pc (threads s ! tid) = Opening \<Longrightarrow>
   record_step pf tid False tr s =
     s\<lparr> threads := (threads s)[tid := (threads s ! tid)\<lparr> pc := Raised DeviceUnavailable \<rparr>],
        trace := SinkClosed tid # trace s \<rparr>"
  by (simp add: record_step_def set_pc_def)

text \<open>
  C3, as the code has it.  The device is opened by the record thread, after
  \<open>start\<close> has returned and the state has been set.  When \<open>p.open\<close> raises, the
  thread ends with the exception and no thread is left alive, no transcription is
  called and the scribe's fields (the result among them) are as before; the
  session state is not changed by the failure, and it is not \<open>ready\<close>.
\<close>

theorem device_failure:
  assumes "s = run pf evs init"
    and "tid < length (threads s)"
    and "pc (threads s ! tid) = Opening"
    and "s' = step pf (Run tid False tr) s"
  shows "state s' = state s \<and> state s' \<noteq> ready \<and>
         pc (threads s' ! tid) = Raised DeviceUnavailable \<and> alive s' = 0 \<and>
         scribe s' = scribe s \<and> trace s' = SinkClosed tid # trace s"
proof -
  have inv: "ctl_inv s" using assms(1) by (simp add: ctl_inv_reachable)
  from assms(2,3) have live: "\<not> terminated (threads s ! tid)" by simp
  with inv assms(2) have nr: "state s \<noteq> ready" unfolding ctl_inv_def by blast
  from inv assms(2) live have rt: "record_thread (scribe s) = Some tid"
    unfolding ctl_inv_def by blast
  with inv have others: "\<forall>i < length (threads s). i \<noteq> tid \<longrightarrow> terminated (threads s ! i)"
    unfolding ctl_inv_def by simp
  from assms(2,3,4)
  have s': "s' = s\<lparr> threads := (threads s)[tid := (threads s ! tid)\<lparr> pc := Raised DeviceUnavailable \<rparr>],
                    trace := SinkClosed tid # trace s \<rparr>"
    by (simp add: step_def open_fails)
  have "terminated (threads s' ! i)" if "i < length (threads s')" for i
    using that others assms(2) s' by (cases "i = tid") simp_all
  then have "alive s' = 0" unfolding alive_zero by blast
  with s' nr assms(2) show ?thesis by simp
qed

theorem device_failure_witness:
  "state (step pcm16 (Run 0 False None) (run pcm16 [Click True, Callback True (Some 7)] init))
     = recording \<and>
   pc (threads (step pcm16 (Run 0 False None) (run pcm16 [Click True, Callback True (Some 7)] init)) ! 0)
     = Raised DeviceUnavailable \<and>
   alive (step pcm16 (Run 0 False None) (run pcm16 [Click True, Callback True (Some 7)] init)) = 0"
  using device_failure [of "run pcm16 [Click True, Callback True (Some 7)] init" pcm16
      "[Click True, Callback True (Some 7)]" 0
      "step pcm16 (Run 0 False None) (run pcm16 [Click True, Callback True (Some 7)] init)" None]
  by (simp add: step_def update_state_def init_def start_recording_flow_def init_model_def
                start_def Let_def)

text \<open>
  C3 as stated fails: with the device unavailable the state is \<open>recording\<close>,
  and stays so while no click arrives.
\<close>

theorem device_failure_counterexample:
  "state (run pcm16 [Click True, Callback True (Some 7), Run 0 False None,
                     Wake, Callback True None, Run 0 True None] init) = recording \<and>
   pc (threads (run pcm16 [Click True, Callback True (Some 7), Run 0 False None,
                     Wake, Callback True None, Run 0 True None] init) ! 0)
     = Raised DeviceUnavailable"
  by (simp add: step_def update_state_def init_def start_recording_flow_def init_model_def
                start_def finish_after_join_def record_step_def set_pc_def Let_def)

subsection \<open>The clipboard\<close>

lemma record_step_texts [simp]:
  "texts (trace (record_step pf tid ok tr s)) = texts (trace s)"
  by (auto simp: record_step_def set_pc_def Let_def split: position.splits option.splits bool.splits)

lemma texts_step:
  "texts (trace (step pf e s)) \<noteq> texts (trace s) \<Longrightarrow>
   e = Wake \<and> (\<exists>text. stop_return s = Some text \<and>
                 texts (trace (step pf e s)) = text # texts (trace s))"
  by (cases e)
     (auto simp: step_def update_state_def start_recording_flow_def finish_recording_flow_def
                 init_model_def start_def stop_enter_def finish_after_join_def
                 stop_return_def paste_to_clipboard_def Let_def
           split: option.splits list.splits deferred.splits if_splits main_pc.splits)

lemma join_returns:
  "main s = InJoin tid \<Longrightarrow> tid < length (threads s) \<Longrightarrow> terminated (threads s ! tid) \<Longrightarrow>
   finish_after_join s =
     (case stop_return s of
        None \<Rightarrow> s\<lparr> main := EventLoop, trace := Joined tid # trace s,
                  state := ready, image := ready_icon \<rparr>
      | Some text \<Rightarrow> s\<lparr> main := EventLoop, trace := SetText text # Joined tid # trace s,
                  state := ready, image := ready_icon \<rparr>)"
  by (simp add: finish_after_join_def stop_return_def paste_to_clipboard_def Let_def
           split: option.splits del: terminated.simps)

text \<open>
  C7, as the code has it.  The guard in \<open>_finish_recording_flow\<close> is
  \<open>result is not None\<close>.  A step puts a text on the clipboard only if it is the
  return of \<open>join\<close> and \<open>stop\<close> returns a result that is not \<open>None\<close>, and
  the text is that result; and whenever \<open>join\<close> returns with a result that is
  not \<open>None\<close>, the empty string included, the result is put on the clipboard.
\<close>

theorem clipboard_only_on_result:
  "(texts (trace (step pf e s)) \<noteq> texts (trace s) \<longrightarrow>
      e = Wake \<and> (\<exists>text. stop_return s = Some text \<and>
                    texts (trace (step pf e s)) = text # texts (trace s))) \<and>
   (main s = InJoin tid \<and> tid < length (threads s) \<and> terminated (threads s ! tid) \<and>
    stop_return s = Some text \<longrightarrow>
      texts (trace (step pf Wake s)) = text # texts (trace s))"
  using texts_step [of pf e s] join_returns [of s tid]
  by (auto simp: step_def simp del: terminated.simps)

lemmas eval_defs =
  step_def update_state_def init_def start_recording_flow_def
  finish_recording_flow_def init_model_def start_def stop_enter_def
  finish_after_join_def stop_return_def paste_to_clipboard_def record_step_def
  set_pc_def st_size_def chunk_bytes_def CHUNK_def CHANNELS_def pcm16_def Let_def

lemma silent_session_state:
  "run pcm16 silent_session init =
     \<lparr> state = processing, image = processing_icon,
       scribe = \<lparr> model = Some 7, record_thread = Some 0, result = Some '''',
                  capture = Some False \<rparr>,
       pending = [], main = InJoin 0,
       threads = [\<lparr> pc = Finished, written = 2048 \<rparr>],
       trace = [Transcribe 0, SinkClosed 0, Written 0, Started 0, Load] \<rparr>"
  by (simp add: silent_session_def eval_defs)

theorem clipboard_only_on_result_witness:
  "texts (trace (step pcm16 Wake (run pcm16 silent_session init)))
     \<noteq> texts (trace (run pcm16 silent_session init)) \<and>
   main (run pcm16 silent_session init) = InJoin 0 \<and>
   terminated (threads (run pcm16 silent_session init) ! 0) \<and>
   stop_return (run pcm16 silent_session init) = Some '''' \<and>
   texts (trace (step pcm16 Wake (run pcm16 silent_session init)))
     = '''' # texts (trace (run pcm16 silent_session init))"
  using clipboard_only_on_result [of pcm16 Wake "run pcm16 silent_session init" 0 "''''"]
  by (simp add: silent_session_state stop_return_def step_def finish_after_join_def
                paste_to_clipboard_def)

text \<open>
  C7 as stated fails: a session whose transcript is the empty string writes the
  empty string to the clipboard.
\<close>

theorem empty_text_counterexample:
  "stop_return (run pcm16 silent_session init) = Some '''' \<and>
   trace (run pcm16 (silent_session @ [Wake]) init)
     = [SetText '''', Joined 0, Transcribe 0, SinkClosed 0, Written 0, Started 0, Load]"
  by (simp add: silent_session_def eval_defs)

subsection \<open>The capture flag and the blocked main thread\<close>

lemma becomes_closed:
  assumes "tid < length (threads s)"
    and "pc (threads (record_step pf tid ok tr s) ! tid) = Closed"
  shows "pc (threads s ! tid) = Closed \<or>
         (pc (threads s ! tid) = Looping \<and> capture (scribe s) = Some False)"
proof (cases "pc (threads s ! tid)")
  case Looping
  with assms show ?thesis
    by (cases "capture (scribe s)") (auto simp: record_step_def set_pc_def split: bool.splits)
next
  case Closed
  then show ?thesis by simp
qed (use assms in \<open>simp_all add: record_step_def set_pc_def Let_def split: if_splits option.splits\<close>)

lemma written_step:
  assumes "tid < length (threads s)"
  shows "written (threads (record_step pf tid ok tr s) ! tid) = written (threads s ! tid) \<or>
         written (threads (record_step pf tid ok tr s) ! tid) = written (threads s ! tid) + chunk_bytes pf"
proof (cases "pc (threads s ! tid)")
  case Looping
  with assms show ?thesis
    by (cases "capture (scribe s)") (auto simp: record_step_def set_pc_def split: bool.splits)
qed (use assms in \<open>simp_all add: record_step_def set_pc_def Let_def split: option.splits\<close>)

lemma cap_inv_init: "cap_inv init"
  by (simp add: cap_inv_def init_def)

lemma cap_inv_click: "cap_inv s \<Longrightarrow> cap_inv (update_state b s)"
  by (auto simp: cap_inv_def update_state_def)

lemma cap_inv_start_flow:
  "cap_inv s \<Longrightarrow> main s = EventLoop \<Longrightarrow> cap_inv (start_recording_flow b m s)"
  by (auto simp: cap_inv_def start_recording_flow_def init_model_def start_def Let_def nth_append
           split: option.splits)

lemma no_thread_all_dead:
  "ctl_inv s \<Longrightarrow> record_thread (scribe s) = None \<Longrightarrow> i < length (threads s) \<Longrightarrow>
   terminated (threads s ! i)"
  unfolding ctl_inv_def by simp

lemma cap_inv_finish_flow:
  "cap_inv s \<Longrightarrow> ctl_inv s \<Longrightarrow> main s = EventLoop \<Longrightarrow> cap_inv (finish_recording_flow b s)"
  using no_thread_all_dead [of s]
  by (auto simp: cap_inv_def finish_recording_flow_def stop_enter_def Let_def
           split: option.splits simp del: terminated.simps)

lemma all_dead_after_join:
  assumes "ctl_inv s" and "main s = InJoin tid" and "tid < length (threads s)"
    and "terminated (threads s ! tid)" and "i < length (threads s)"
  shows "terminated (threads s ! i)"
proof (cases "i = tid")
  case True
  with assms(4) show ?thesis by simp
next
  case False
  from assms(1,2) have "record_thread (scribe s) = Some tid" unfolding ctl_inv_def by blast
  with False assms(1,5) show ?thesis unfolding ctl_inv_def by simp
qed

lemma cap_inv_wake: "cap_inv s \<Longrightarrow> ctl_inv s \<Longrightarrow> cap_inv (finish_after_join s)"
proof (cases "main s")
  case EventLoop
  then show "cap_inv s \<Longrightarrow> ?thesis" by (simp add: finish_after_join_def)
next
  case (InJoin tid)
  assume c: "cap_inv s" and k: "ctl_inv s"
  show ?thesis
  proof (cases "tid < length (threads s) \<and> terminated (threads s ! tid)")
    case False
    with InJoin c show ?thesis by (auto simp: finish_after_join_def)
  next
    case True
    then have dead: "\<forall>i < length (threads s). terminated (threads s ! i)"
      using all_dead_after_join [OF k InJoin] by blast
    have "threads (finish_after_join s) = threads s"
      using InJoin True
      by (simp add: join_returns split: option.splits del: terminated.simps)
    with dead show ?thesis by (auto simp: cap_inv_def)
  qed
qed

lemma cap_inv_run_thread:
  assumes c: "cap_inv s" and k: "ctl_inv s"
  shows "cap_inv (record_step pf tid ok tr s)"
proof (cases "tid < length (threads s) \<and> \<not> terminated (threads s ! tid)")
  case False
  then have "record_step pf tid ok tr s = s"
    using record_step_terminated record_step_beyond by (cases "tid < length (threads s)") auto
  with c show ?thesis by simp
next
  case True
  with k have rt: "record_thread (scribe s) = Some tid" unfolding ctl_inv_def by blast
  have joined: "main s = InJoin tid" if "capture (scribe s) \<noteq> Some True"
  proof -
    from that c True have "main s \<noteq> EventLoop" unfolding cap_inv_def by blast
    then obtain j where j: "main s = InJoin j" by (cases "main s") auto
    with k rt show ?thesis by (auto simp: ctl_inv_def)
  qed
  have others: "threads (record_step pf tid ok tr s) ! i = threads s ! i" if "i \<noteq> tid" for i
    using that by (rule record_step_other)
  have self: "main s = InJoin tid" if "pc (threads (record_step pf tid ok tr s) ! tid) = Closed"
  proof -
    from becomes_closed [OF _ that] True
    have "pc (threads s ! tid) = Closed \<or> capture (scribe s) \<noteq> Some True" by auto
    then show ?thesis
    proof
      assume "pc (threads s ! tid) = Closed"
      with c True show ?thesis by (simp add: cap_inv_def)
    next
      assume "capture (scribe s) \<noteq> Some True"
      then show ?thesis by (rule joined)
    qed
  qed
  show ?thesis
    unfolding cap_inv_def
  proof (intro conjI allI impI)
    assume "main (record_step pf tid ok tr s) = EventLoop \<and>
            (\<exists>i<length (threads (record_step pf tid ok tr s)).
               \<not> terminated (threads (record_step pf tid ok tr s) ! i))"
    then have "main s = EventLoop" by simp
    with c True show "capture (scribe (record_step pf tid ok tr s)) = Some True"
      unfolding cap_inv_def by auto
  next
    fix i
    assume i: "i < length (threads (record_step pf tid ok tr s))"
      and cl: "pc (threads (record_step pf tid ok tr s) ! i) = Closed"
    show "main (record_step pf tid ok tr s) = InJoin i"
    proof (cases "i = tid")
      case True
      with cl self show ?thesis by simp
    next
      case False
      with cl others have "pc (threads s ! i) = Closed" by simp
      with i c show ?thesis by (simp add: cap_inv_def)
    qed
  qed
qed

lemma cap_inv_step: "cap_inv s \<Longrightarrow> ctl_inv s \<Longrightarrow> cap_inv (step pf e s)"
proof (cases e)
  case (Click b)
  then show "cap_inv s \<Longrightarrow> ?thesis" by (simp add: step_def cap_inv_click)
next
  case (Callback b m)
  assume c: "cap_inv s" and k: "ctl_inv s"
  from c have c': "cap_inv (s\<lparr> pending := q \<rparr>)" for q by (simp add: cap_inv_def)
  from k have k': "pending s = f # q \<Longrightarrow> ctl_inv (s\<lparr> pending := q \<rparr>)" for f q
    by (auto simp: ctl_inv_def)
  show ?thesis using Callback c c' k'
    by (auto simp: step_def cap_inv_start_flow cap_inv_finish_flow
             split: list.splits deferred.splits)
next
  case Wake
  then show "cap_inv s \<Longrightarrow> ctl_inv s \<Longrightarrow> ?thesis" by (simp add: step_def cap_inv_wake)
next
  case (Run tid ok tr)
  then show "cap_inv s \<Longrightarrow> ctl_inv s \<Longrightarrow> ?thesis" by (simp add: step_def cap_inv_run_thread)
qed

lemma cap_inv_run: "cap_inv s \<Longrightarrow> ctl_inv s \<Longrightarrow> cap_inv (run pf evs s)"
  by (induction evs arbitrary: s) (simp_all add: cap_inv_step ctl_inv_step)

lemma cap_inv_reachable: "cap_inv (run pf evs init)"
  by (rule cap_inv_run [OF cap_inv_init ctl_inv_init])

lemma whole_chunks_step: "whole_chunks pf s \<Longrightarrow> whole_chunks pf (step pf e s)"
proof (cases e)
  case (Run tid ok tr)
  assume w: "whole_chunks pf s"
  have "chunk_bytes pf dvd written (threads (record_step pf tid ok tr s) ! i)"
    if "i < length (threads s)" for i
  proof (cases "i = tid")
    case False
    with that w show ?thesis by (simp add: record_step_other whole_chunks_def)
  next
    case True
    from that w have "chunk_bytes pf dvd written (threads s ! tid)"
      by (simp add: True whole_chunks_def)
    with written_step [of tid s pf ok tr] that True show ?thesis by auto
  qed
  with Run show ?thesis by (simp add: step_def whole_chunks_def)
qed (auto simp: whole_chunks_def step_def update_state_def start_recording_flow_def
                finish_recording_flow_def init_model_def start_def stop_enter_def
                finish_after_join_def stop_return_def paste_to_clipboard_def Let_def nth_append
          split: option.splits list.splits deferred.splits main_pc.splits)

lemma whole_chunks_run: "whole_chunks pf s \<Longrightarrow> whole_chunks pf (run pf evs s)"
  by (induction evs arbitrary: s) (simp_all add: whole_chunks_step)

lemma whole_chunks_reachable: "whole_chunks pf (run pf evs init)"
  by (rule whole_chunks_run) (simp add: whole_chunks_def init_def)

subsection \<open>The end of a session\<close>

lemma run_append: "run pf (xs @ ys) s = run pf ys (run pf xs s)"
  by (induction xs arbitrary: s) simp_all

lemma blocked_step:
  assumes "main s = InJoin tid" and "\<forall>i < length (threads s). terminated (threads s ! i)"
    and "e \<noteq> Wake"
  shows "step pf e s = s"
proof (cases e)
  case (Run i ok tr)
  from assms(2) have "record_step pf i ok tr s = s"
    using record_step_terminated record_step_beyond by (cases "i < length (threads s)") auto
  with Run show ?thesis by (simp add: step_def)
qed (use assms in \<open>simp_all add: step_def\<close>)

lemma too_short_step:
  assumes "tid < length (threads s)" and "pc (threads s ! tid) = Closed"
    and "st_size pf (threads s ! tid) \<le> CHUNK"
  shows "record_step pf tid ok tr s =
           s\<lparr> scribe := (scribe s)\<lparr> result := None \<rparr>,
              threads := (threads s)[tid := (threads s ! tid)\<lparr> pc := Finished \<rparr>] \<rparr>"
  using assms by (simp add: record_step_def set_pc_def)

lemma transcribe_raises_step:
  assumes "tid < length (threads s)" and "pc (threads s ! tid) = Closed"
    and "CHUNK < st_size pf (threads s ! tid)"
  shows "record_step pf tid ok None s =
           s\<lparr> trace := Transcribe tid # trace s,
              threads := (threads s)[tid := (threads s ! tid)\<lparr> pc := Raised TranscriptionFailure \<rparr>] \<rparr>"
  using assms by (simp add: record_step_def set_pc_def)

lemma closed_then_joined:
  assumes "s = run pf evs init" and "tid < length (threads s)" and "pc (threads s ! tid) = Closed"
  shows "main s = InJoin tid"
  using assms cap_inv_reachable [of pf evs] by (simp add: cap_inv_def)

lemma all_dead_after_last:
  assumes k: "ctl_inv s" and m: "main s = InJoin tid" and t: "tid < length (threads s)"
    and s1: "threads s1 = (threads s)[tid := th]" and th: "terminated th"
    and i: "i < length (threads s1)"
  shows "terminated (threads s1 ! i)"
proof (cases "i = tid")
  case True
  with t s1 th show ?thesis by simp
next
  case False
  from k m have "record_thread (scribe s) = Some tid" unfolding ctl_inv_def by blast
  with False k i s1 have "terminated (threads s ! i)" unfolding ctl_inv_def by simp
  with False s1 show ?thesis by simp
qed

text \<open>
  When the thread of a session has left its loop and closed a file that holds
  less than one chunk of audio (and the header of the file is not longer than
  \<open>CHUNK\<close> bytes), its next step ends it without a call of \<open>transcribe\<close>
  and with \<open>result\<close> set to \<open>None\<close>, so that \<open>stop\<close> returns \<open>None\<close>;
  nothing but the return of \<open>join\<close> can happen next, and it brings the state
  to \<open>ready\<close> without a write to the clipboard.
\<close>

lemma too_short_after_loop:
  assumes "s = run pf evs init"
    and "tid < length (threads s)"
    and "pc (threads s ! tid) = Closed"
    and "written (threads s ! tid) < chunk_bytes pf"
    and "header_size pf \<le> CHUNK"
    and "s1 = step pf (Run tid ok tr) s"
    and "s2 = step pf Wake s1"
  shows "pc (threads s1 ! tid) = Finished \<and> stop_return s1 = None \<and> trace s1 = trace s \<and>
         (e \<noteq> Wake \<longrightarrow> step pf e s1 = s1) \<and>
         state s2 = ready \<and> trace s2 = Joined tid # trace s"
proof -
  have k: "ctl_inv s" using assms(1) by (simp add: ctl_inv_reachable)
  have m: "main s = InJoin tid" using assms(1-3) by (rule closed_then_joined)
  have "chunk_bytes pf dvd written (threads s ! tid)"
    using whole_chunks_reachable [of pf evs] assms(1,2) by (simp add: whole_chunks_def)
  with assms(4) have "written (threads s ! tid) = 0"
    by (metis dvd_imp_le not_less not_gr_zero)
  with assms(5) have short: "st_size pf (threads s ! tid) \<le> CHUNK" by (simp add: st_size_def)
  from assms(6) have s1: "s1 = s\<lparr> scribe := (scribe s)\<lparr> result := None \<rparr>,
              threads := (threads s)[tid := (threads s ! tid)\<lparr> pc := Finished \<rparr>] \<rparr>"
    by (simp add: step_def too_short_step [OF assms(2,3) short])
  have dead: "\<forall>i < length (threads s1). terminated (threads s1 ! i)"
    using all_dead_after_last [OF k m assms(2), of s1 "(threads s ! tid)\<lparr> pc := Finished \<rparr>"] s1
    by simp
  from s1 m have m1: "main s1 = InJoin tid" by simp
  have blocked: "e \<noteq> Wake \<longrightarrow> step pf e s1 = s1"
    using blocked_step [OF m1 dead] by blast
  from s1 assms(2) have t1: "tid < length (threads s1)" "terminated (threads s1 ! tid)" by simp_all
  from s1 have r1: "stop_return s1 = None" by (simp add: stop_return_def)
  from assms(7) join_returns [OF m1 t1] r1
  have "s2 = s1\<lparr> main := EventLoop, trace := Joined tid # trace s1,
                  state := ready, image := ready_icon \<rparr>"
    by (simp add: step_def)
  with s1 r1 blocked assms(2) show ?thesis by simp
qed

lemma too_short_after_loop_example:
  "pc (threads (run pcm16 short_until_closed init) ! 0) = Closed \<and>
   written (threads (run pcm16 short_until_closed init) ! 0) < chunk_bytes pcm16 \<and>
   header_size pcm16 \<le> CHUNK \<and>
   stop_return (step pcm16 (Run 0 True (Some ''hi'')) (run pcm16 short_until_closed init)) = None \<and>
   trace (step pcm16 Wake
            (step pcm16 (Run 0 True (Some ''hi'')) (run pcm16 short_until_closed init)))
     = [Joined 0, SinkClosed 0, Started 0, Load]"
  using too_short_after_loop [of "run pcm16 short_until_closed init" pcm16 short_until_closed 0
      "step pcm16 (Run 0 True (Some ''hi'')) (run pcm16 short_until_closed init)" True "Some ''hi''"
      "step pcm16 Wake (step pcm16 (Run 0 True (Some ''hi'')) (run pcm16 short_until_closed init))"
      Wake]
  by (simp add: short_until_closed_def eval_defs)

text \<open>
  C6.  The claim: a session whose captured audio is shorter than one chunk makes
  \<open>stop\<close> return no result, calls no transcription and leaves the clipboard
  alone.  The code, in a second session whose thread cannot open the device,
  after a first session that produced a text: the thread has written nothing
  and ends by the exception before \<open>result\<close> is assigned, \<open>stop\<close> returns the
  text of the first session, and the text is written to the clipboard a second
  time.
\<close>

theorem no_audio_repastes:
  "pc (threads (run pcm16 (first_session @
         [Click True, Callback True None, Run 1 False None, Click True, Callback True None])
         init) ! 1) = Raised DeviceUnavailable \<and>
   written (threads (run pcm16 (first_session @
         [Click True, Callback True None, Run 1 False None, Click True, Callback True None])
         init) ! 1) < chunk_bytes pcm16 \<and>
   stop_return (run pcm16 (first_session @
         [Click True, Callback True None, Run 1 False None, Click True, Callback True None])
         init) = Some ''hi'' \<and>
   texts (trace (run pcm16 (first_session @
         [Click True, Callback True None, Run 1 False None, Click True, Callback True None, Wake])
         init)) = [''hi'', ''hi'']"
  by (simp add: run_append first_session_state) (simp add: eval_defs)

text \<open>
  When \<open>transcribe\<close> raises, the exception ends the record thread and nothing
  else: \<open>result\<close> is not assigned, nothing but the return of \<open>join\<close> can
  happen next, and the finish flow goes on to \<open>ready\<close> with whatever
  \<open>result\<close> held.
\<close>

lemma transcribe_raises_session:
  assumes "s = run pf evs init"
    and "tid < length (threads s)"
    and "pc (threads s ! tid) = Closed"
    and "CHUNK < st_size pf (threads s ! tid)"
    and "s1 = step pf (Run tid ok None) s"
    and "s2 = step pf Wake s1"
  shows "pc (threads s1 ! tid) = Raised TranscriptionFailure \<and>
         stop_return s1 = result (scribe s) \<and>
         (e \<noteq> Wake \<longrightarrow> step pf e s1 = s1) \<and>
         state s2 = ready \<and> main s2 = EventLoop \<and>
         trace s2 = (case result (scribe s) of None \<Rightarrow> [] | Some text \<Rightarrow> [SetText text])
                      @ Joined tid # Transcribe tid # trace s"
proof -
  have k: "ctl_inv s" using assms(1) by (simp add: ctl_inv_reachable)
  have m: "main s = InJoin tid" using assms(1-3) by (rule closed_then_joined)
  from assms(5) have s1: "s1 = s\<lparr> trace := Transcribe tid # trace s,
      threads := (threads s)[tid := (threads s ! tid)\<lparr> pc := Raised TranscriptionFailure \<rparr>] \<rparr>"
    by (simp add: step_def transcribe_raises_step [OF assms(2,3,4)])
  have dead: "\<forall>i < length (threads s1). terminated (threads s1 ! i)"
    using all_dead_after_last [OF k m assms(2), of s1
        "(threads s ! tid)\<lparr> pc := Raised TranscriptionFailure \<rparr>"] s1
    by simp
  from s1 m have m1: "main s1 = InJoin tid" by simp
  have blocked: "e \<noteq> Wake \<longrightarrow> step pf e s1 = s1"
    using blocked_step [OF m1 dead] by blast
  from s1 assms(2) have t1: "tid < length (threads s1)" "terminated (threads s1 ! tid)" by simp_all
  from s1 have r1: "stop_return s1 = result (scribe s)" by (simp add: stop_return_def)
  from assms(6) join_returns [OF m1 t1]
  have "s2 = (case stop_return s1 of
        None \<Rightarrow> s1\<lparr> main := EventLoop, trace := Joined tid # trace s1,
                  state := ready, image := ready_icon \<rparr>
      | Some text \<Rightarrow> s1\<lparr> main := EventLoop, trace := SetText text # Joined tid # trace s1,
                  state := ready, image := ready_icon \<rparr>)"
    by (simp add: step_def)
  with s1 r1 blocked assms(2) show ?thesis by (simp split: option.splits)
qed

lemma second_until_closed_state:
  "run pcm16 (first_session @ second_until_closed) init =
     \<lparr> state = processing, image = processing_icon,
       scribe = \<lparr> model = Some 7, record_thread = Some 1, result = Some ''hi'',
                  capture = Some False \<rparr>,
       pending = [], main = InJoin 1,
       threads = [\<lparr> pc = Finished, written = 2048 \<rparr>, \<lparr> pc = Closed, written = 2048 \<rparr>],
       trace = [SinkClosed 1, Written 1, Started 1,
                SetText ''hi'', Joined 0, Transcribe 0, SinkClosed 0, Written 0, Started 0, Load] \<rparr>"
  by (simp add: run_append first_session_state) (simp add: second_until_closed_def eval_defs)

lemma transcribe_raises_session_example:
  "pc (threads (run pcm16 (first_session @ second_until_closed) init) ! 1) = Closed \<and>
   CHUNK < st_size pcm16 (threads (run pcm16 (first_session @ second_until_closed) init) ! 1) \<and>
   stop_return (step pcm16 (Run 1 True None) (run pcm16 (first_session @ second_until_closed) init))
     = Some ''hi'' \<and>
   state (step pcm16 Wake
            (step pcm16 (Run 1 True None) (run pcm16 (first_session @ second_until_closed) init)))
     = ready"
  using transcribe_raises_session [of "run pcm16 (first_session @ second_until_closed) init" pcm16
      "first_session @ second_until_closed" 1
      "step pcm16 (Run 1 True None) (run pcm16 (first_session @ second_until_closed) init)" True
      "step pcm16 Wake
         (step pcm16 (Run 1 True None) (run pcm16 (first_session @ second_until_closed) init))"
      Wake]
  unfolding second_until_closed_state
  by (simp add: eval_defs)

text \<open>
  C5.  The claim: when the transcription call raises, \<open>stop\<close> returns no
  result, nothing is written to the clipboard, and the host goes on.  The code,
  in a second session whose transcription raises after a first session that
  produced a text: the thread ends by the exception before \<open>result\<close> is
  assigned, \<open>stop\<close> returns the text of the first session, and the text is
  written to the clipboard a second time.
\<close>

theorem transcription_failure_repastes:
  "pc (threads (run pcm16 (first_session @ second_until_closed @ [Run 1 True None]) init) ! 1)
     = Raised TranscriptionFailure \<and>
   stop_return (run pcm16 (first_session @ second_until_closed @ [Run 1 True None]) init)
     = Some ''hi'' \<and>
   texts (trace (run pcm16 (first_session @ second_until_closed @ [Run 1 True None, Wake]) init))
     = [''hi'', ''hi'']"
  by (simp add: run_append first_session_state) (simp add: second_until_closed_def eval_defs)

subsection \<open>Transcription comes after the file is closed and before the join returns\<close>

lemma log_inv_init: "log_inv init"
  by (simp add: log_inv_def init_def)

lemma log_inv_click: "log_inv s \<Longrightarrow> log_inv (update_state b s)"
  by (simp add: log_inv_def update_state_def)

lemma log_inv_pending: "log_inv s \<Longrightarrow> log_inv (s\<lparr> pending := q \<rparr>)"
  by (simp add: log_inv_def)

lemma log_inv_start: "log_inv s \<Longrightarrow> log_inv (start (s\<lparr> image := recording_icon, state := recording \<rparr>))"
  unfolding log_inv_def start_def Let_def
  by (auto simp: nth_append)

lemma log_inv_load: "log_inv s \<Longrightarrow> log_inv (s\<lparr> trace := Load # trace s \<rparr>)"
  by (simp add: log_inv_def)

lemma log_inv_uncaught: "log_inv s \<Longrightarrow> log_inv (s\<lparr> trace := Uncaught e # trace s \<rparr>)"
  by (simp add: log_inv_def)

lemma log_inv_scribe: "log_inv s \<Longrightarrow> log_inv (s\<lparr> scribe := x \<rparr>)"
  by (simp add: log_inv_def)

lemma log_inv_main: "log_inv s \<Longrightarrow> log_inv (s\<lparr> main := x \<rparr>)"
  by (simp add: log_inv_def)

lemma log_inv_start_flow: "log_inv s \<Longrightarrow> log_inv (start_recording_flow b m s)"
proof -
  assume l: "log_inv s"
  have a: "log_inv (start (x\<lparr> image := recording_icon, state := recording \<rparr>))" if "log_inv x" for x
    using that by (rule log_inv_start)
  show ?thesis
    using l a [OF l] a [OF log_inv_scribe [OF log_inv_load [OF l]]]
          log_inv_uncaught [OF log_inv_load [OF l]]
    by (auto simp: start_recording_flow_def init_model_def Let_def split: option.splits)
qed

lemma log_inv_finish_flow: "log_inv s \<Longrightarrow> log_inv (finish_recording_flow b s)"
  by (auto simp: finish_recording_flow_def stop_enter_def Let_def log_inv_def split: option.splits)

lemma log_inv_wake: "log_inv s \<Longrightarrow> log_inv (finish_after_join s)"
proof (cases "main s")
  case EventLoop
  then show "log_inv s \<Longrightarrow> ?thesis" by (simp add: finish_after_join_def)
next
  case (InJoin tid)
  assume l: "log_inv s"
  show ?thesis
  proof (cases "tid < length (threads s) \<and> terminated (threads s ! tid)")
    case False
    with InJoin l show ?thesis by (auto simp: finish_after_join_def)
  next
    case True
    then have w: "\<not> writing (threads s ! tid)" "pc (threads s ! tid) \<noteq> Closed"
      by (auto split: position.splits)
    have j: "log_inv (s\<lparr> main := EventLoop, trace := Joined tid # trace s,
                  state := ready, image := ready_icon \<rparr>)"
      using l True unfolding log_inv_def by (auto simp del: terminated.simps writing.simps)
    then have "log_inv (s\<lparr> main := EventLoop, trace := SetText w # Joined tid # trace s,
                  state := ready, image := ready_icon \<rparr>)" for w
      by (simp add: log_inv_def)
    with j InJoin True show ?thesis
      by (simp add: join_returns split: option.splits del: terminated.simps)
  qed
qed

lemma log_inv_run_thread:
  assumes l: "log_inv s"
  shows "log_inv (record_step pf tid ok tr s)"
proof (cases "tid < length (threads s)")
  case False
  then show ?thesis using l by (simp add: record_step_beyond)
next
  case t: True
  show ?thesis
  proof (cases "pc (threads s ! tid)")
    case Opening
    with l t show ?thesis
      unfolding log_inv_def
      by (auto simp: record_step_def set_pc_def nth_list_update)
  next
    case Looping
    with l t show ?thesis
      unfolding log_inv_def
      by (cases "capture (scribe s)")
         (auto simp: record_step_def set_pc_def nth_list_update split: bool.splits)
  next
    case Reading
    with l t show ?thesis
      unfolding log_inv_def
      by (auto simp: record_step_def set_pc_def nth_list_update)
  next
    case Closed
    with l t have c: "SinkClosed tid \<in> set (trace s)" "Joined tid \<notin> set (trace s)"
      unfolding log_inv_def by auto
    with Closed l t show ?thesis
      unfolding log_inv_def
      by (cases tr) (auto simp: record_step_def set_pc_def nth_list_update Let_def)
  next
    case Finished
    with t have "record_step pf tid ok tr s = s" by (simp add: record_step_terminated)
    with l show ?thesis by simp
  next
    case (Raised e)
    with t have "record_step pf tid ok tr s = s" by (simp add: record_step_terminated)
    with l show ?thesis by simp
  qed
qed

lemma log_inv_step: "log_inv s \<Longrightarrow> log_inv (step pf e s)"
proof (cases e)
  case (Click b)
  then show "log_inv s \<Longrightarrow> ?thesis" by (simp add: step_def log_inv_click)
next
  case (Callback b m)
  assume l: "log_inv s"
  show ?thesis using Callback l log_inv_start_flow [OF log_inv_pending [OF l]]
      log_inv_finish_flow [OF log_inv_pending [OF l]]
    by (simp add: step_def split: list.splits deferred.splits)
next
  case Wake
  then show "log_inv s \<Longrightarrow> ?thesis" by (simp add: step_def log_inv_wake)
next
  case (Run tid ok tr)
  then show "log_inv s \<Longrightarrow> ?thesis" by (simp add: step_def log_inv_run_thread)
qed

lemma log_inv_run: "log_inv s \<Longrightarrow> log_inv (run pf evs s)"
  by (induction evs arbitrary: s) (simp_all add: log_inv_step)

lemma ordered_reachable: "ordered (trace (run pf evs init))"
  using log_inv_run [OF log_inv_init, of pf evs] by (simp add: log_inv_def)

lemma ordered_tail: "ordered (a # older) \<Longrightarrow> ordered older"
  by (cases a) simp_all

lemma ordered_no_join_first:
  "ordered tr \<Longrightarrow> \<not> happens_before (Joined t) (Transcribe t) tr"
proof (induction tr)
  case Nil
  then show ?case by simp
next
  case (Cons a older)
  then show ?case using ordered_tail [OF Cons.prems] by (cases a) auto
qed

lemma ordered_no_write_after_close:
  "ordered tr \<Longrightarrow> \<not> happens_before (SinkClosed t) (Written t) tr"
proof (induction tr)
  case Nil
  then show ?case by simp
next
  case (Cons a older)
  then show ?case using ordered_tail [OF Cons.prems] by (cases a) auto
qed

lemma ordered_closed_first:
  "ordered tr \<Longrightarrow> Transcribe t \<in> set tr \<Longrightarrow> happens_before (SinkClosed t) (Transcribe t) tr"
proof (induction tr)
  case Nil
  then show ?case by simp
next
  case (Cons a older)
  then show ?case using ordered_tail [OF Cons.prems(1)] by (cases a) auto
qed

text \<open>
  C9, as the code has it.  \<open>transcribe\<close> is called by the record thread itself.
  Along every schedule and for every thread: no \<open>join\<close> on the thread returns
  before the thread calls \<open>transcribe\<close>, nothing is written to its file once the
  file is closed, and whenever it calls \<open>transcribe\<close> it has closed its file
  before.
\<close>

theorem transcription_order:
  "\<not> happens_before (Joined t) (Transcribe t) (trace (run pf evs init)) \<and>
   \<not> happens_before (SinkClosed t) (Written t) (trace (run pf evs init)) \<and>
   (Transcribe t \<in> set (trace (run pf evs init)) \<longrightarrow>
      happens_before (SinkClosed t) (Transcribe t) (trace (run pf evs init)))"
  using ordered_reachable [of pf evs]
  by (simp add: ordered_no_join_first ordered_no_write_after_close ordered_closed_first)

theorem transcription_order_witness:
  "Transcribe 0 \<in> set (trace (run pcm16 first_session init)) \<and>
   happens_before (SinkClosed 0) (Transcribe 0) (trace (run pcm16 first_session init)) \<and>
   \<not> happens_before (Joined 0) (Transcribe 0) (trace (run pcm16 first_session init))"
  using transcription_order [of 0 pcm16 first_session]
  by (simp add: first_session_state)

text \<open>
  C9 as stated fails: in a plain session the call of \<open>transcribe\<close> comes before
  the return of \<open>join\<close>, not after it.
\<close>

theorem join_before_transcription_counterexample:
  "happens_before (Transcribe 0) (Joined 0) (trace (run pcm16 first_session init)) \<and>
   \<not> happens_before (Joined 0) (Transcribe 0) (trace (run pcm16 first_session init))"
  by (simp add: first_session_state)

subsection \<open>The result left over from the session before\<close>

lemma threads_mono: "length (threads s) \<le> length (threads (step pf e s))"
  by (cases e)
     (auto simp: step_def update_state_def start_recording_flow_def finish_recording_flow_def
                 init_model_def start_def stop_enter_def finish_after_join_def
                 paste_to_clipboard_def Let_def
           split: option.splits list.splits deferred.splits main_pc.splits)

lemma main_step_keeps:
  assumes "length (threads (step pf e s)) = length (threads s)" and "\<forall>i ok tr. e \<noteq> Run i ok tr"
  shows "threads (step pf e s) = threads s \<and> result (scribe (step pf e s)) = result (scribe s)"
  using assms
  by (cases e)
     (auto simp: step_def update_state_def start_recording_flow_def finish_recording_flow_def
                 init_model_def start_def stop_enter_def finish_after_join_def
                 paste_to_clipboard_def Let_def
           split: option.splits list.splits deferred.splits main_pc.splits if_splits)

lemma result_changes:
  assumes "tid < length (threads s)"
    and "result (scribe (record_step pf tid ok tr s)) \<noteq> result (scribe s)"
  shows "pc (threads (record_step pf tid ok tr s) ! tid) = Finished"
proof (cases "pc (threads s ! tid)")
  case Looping
  with assms show ?thesis
    by (cases "capture (scribe s)") (auto simp: record_step_def set_pc_def split: bool.splits)
next
  case Closed
  with assms show ?thesis
    by (cases tr) (auto simp: record_step_def set_pc_def Let_def split: if_splits)
qed (use assms in \<open>simp_all add: record_step_def set_pc_def Let_def split: if_splits\<close>)

lemma session_inv_step:
  assumes inv: "session_inv n r s"
  shows "session_inv n r (step pf e s)"
proof -
  have ge: "Suc n \<le> length (threads (step pf e s))"
    using inv threads_mono [of s pf e] by (simp add: session_inv_def)
  have rest: "(\<forall>i < n. terminated (threads (step pf e s) ! i)) \<and>
              (pc (threads (step pf e s) ! n) \<noteq> Finished \<longrightarrow> result (scribe (step pf e s)) = r)"
    if len: "length (threads (step pf e s)) = Suc n"
  proof -
    from len inv threads_mono [of s pf e] have len0: "length (threads s) = Suc n"
      by (simp add: session_inv_def)
    with inv have dead: "\<forall>i < n. terminated (threads s ! i)"
      and res: "pc (threads s ! n) \<noteq> Finished \<Longrightarrow> result (scribe s) = r"
      by (simp_all add: session_inv_def)
    show ?thesis
    proof (cases "\<exists>i ok tr. e = Run i ok tr")
      case False
      with len len0 main_step_keeps [of pf e s]
      have "threads (step pf e s) = threads s" "result (scribe (step pf e s)) = result (scribe s)"
        by simp_all
      with dead res show ?thesis by simp
    next
      case True
      then obtain i ok tr where e: "e = Run i ok tr" by blast
      then have st: "step pf e s = record_step pf i ok tr s" by (simp add: step_def)
      show ?thesis
      proof (cases "i = n")
        case False
        have "record_step pf i ok tr s = s"
        proof (cases "i < n")
          case True
          with dead len0 show ?thesis by (simp add: record_step_terminated)
        next
          case False
          with \<open>i \<noteq> n\<close> len0 show ?thesis by (simp add: record_step_beyond)
        qed
        with st dead res show ?thesis by simp
      next
        case True
        have d: "\<forall>j < n. terminated (threads (step pf e s) ! j)"
          using dead st True by (simp add: record_step_other)
        have "result (scribe (step pf e s)) = r" if nf: "pc (threads (step pf e s) ! n) \<noteq> Finished"
        proof -
          from nf st True result_changes [of n s pf ok tr] len0
          have same: "result (scribe (step pf e s)) = result (scribe s)" by auto
          have "pc (threads s ! n) \<noteq> Finished"
          proof
            assume "pc (threads s ! n) = Finished"
            with len0 have "record_step pf n ok tr s = s" by (simp add: record_step_terminated)
            with st True nf \<open>pc (threads s ! n) = Finished\<close> show False by simp
          qed
          with res same show ?thesis by simp
        qed
        with d show ?thesis by blast
      qed
    qed
  qed
  from ge rest show ?thesis unfolding session_inv_def by blast
qed

lemma session_inv_run: "session_inv n r s \<Longrightarrow> session_inv n r (run pf evs s)"
  by (induction evs arbitrary: s) (simp_all add: session_inv_step)

lemma session_inv_start:
  "\<forall>i < length (threads s). terminated (threads s ! i) \<Longrightarrow>
   session_inv (length (threads s)) (result (scribe s)) (start s)"
  by (simp add: session_inv_def start_def Let_def nth_append del: terminated.simps)

lemma start_flow_starts:
  assumes "pending s = call_start_recording_flow # q" and "main s = EventLoop"
    and "model (scribe s) \<noteq> None \<or> m \<noteq> None"
  shows "\<exists>x. step pf (Callback True m) s = start x \<and> threads x = threads s \<and>
             result (scribe x) = result (scribe s)"
proof (cases "model (scribe s)")
  case None
  with assms(3) obtain h where "m = Some h" by auto
  with None assms(1,2) show ?thesis
    by (auto simp: step_def start_recording_flow_def init_model_def Let_def
             intro!: exI [of _ "s\<lparr> pending := q, trace := Load # trace s,
                                    scribe := (scribe s)\<lparr> model := Some h \<rparr>,
                                    image := recording_icon, state := recording \<rparr>"])
next
  case (Some h)
  with assms(1,2) show ?thesis
    by (auto simp: step_def start_recording_flow_def Let_def
             intro!: exI [of _ "s\<lparr> pending := q, image := recording_icon, state := recording \<rparr>"])
qed

text \<open>
  C10.  \<open>start\<close> leaves \<open>result\<close> as it is.  Take any reachable state in which
  the start flow is pending and let it run \<open>start\<close>; let any events follow that
  start no further session; if then the thread of the session has ended by an
  exception and the main thread is in \<open>stop\<close>, blocked in \<open>join\<close>, then
  \<open>join\<close> returns, \<open>stop\<close> returns the value that \<open>result\<close> had before
  \<open>start\<close>, and the finish flow writes it to the clipboard unless it is
  \<open>None\<close>.
\<close>

theorem stale_result:
  assumes "s = run pf evs init"
    and "pending s = call_start_recording_flow # q"
    and "model (scribe s) \<noteq> None \<or> m \<noteq> None"
    and "s1 = step pf (Callback True m) s"
    and "s2 = run pf later s1"
    and "length (threads s2) = Suc (length (threads s))"
    and "pc (threads s2 ! length (threads s)) = Raised e"
    and "main s2 = InJoin (length (threads s))"
    and "s3 = step pf Wake s2"
  shows "result (scribe (start x)) = result (scribe x) \<and>
         result (scribe s1) = result (scribe s) \<and>
         stop_return s2 = result (scribe s) \<and>
         main s3 = EventLoop \<and> state s3 = ready \<and>
         trace s3 = (case result (scribe s) of None \<Rightarrow> [] | Some w \<Rightarrow> [SetText w])
                      @ Joined (length (threads s)) # trace s2"
proof -
  have k: "ctl_inv s" using assms(1) by (simp add: ctl_inv_reachable)
  with assms(2) have m: "main s = EventLoop"
    and dead: "\<forall>i < length (threads s). terminated (threads s ! i)"
    by (auto simp: ctl_inv_def simp del: terminated.simps)
  from start_flow_starts [OF assms(2) m assms(3), of pf] assms(4)
  obtain y where y: "s1 = start y" "threads y = threads s" "result (scribe y) = result (scribe s)"
    by auto
  from dead y have "session_inv (length (threads s)) (result (scribe s)) s1"
    using session_inv_start [of y] by simp
  then have "session_inv (length (threads s)) (result (scribe s)) s2"
    unfolding assms(5) by (rule session_inv_run)
  with assms(6,7) have r2: "result (scribe s2) = result (scribe s)"
    by (simp add: session_inv_def)
  from assms(6,7) have t: "length (threads s) < length (threads s2)"
    "terminated (threads s2 ! length (threads s))" by simp_all
  from assms(9) join_returns [OF assms(8) t]
  have s3: "s3 = (case stop_return s2 of
        None \<Rightarrow> s2\<lparr> main := EventLoop, trace := Joined (length (threads s)) # trace s2,
                  state := ready, image := ready_icon \<rparr>
      | Some w \<Rightarrow> s2\<lparr> main := EventLoop,
                  trace := SetText w # Joined (length (threads s)) # trace s2,
                  state := ready, image := ready_icon \<rparr>)"
    by (simp add: step_def)
  have r1: "result (scribe s1) = result (scribe s)"
    using y by (simp add: start_def Let_def)
  have "result (scribe (start x)) = result (scribe x)" by (simp add: start_def Let_def)
  with r1 r2 s3 show ?thesis by (simp add: stop_return_def split: option.splits)
qed

lemma before_second_start:
  "run pcm16 (first_session @ [Click True]) init =
     \<lparr> state = processing, image = processing_icon,
       scribe = \<lparr> model = Some 7, record_thread = Some 0, result = Some ''hi'',
                  capture = Some False \<rparr>,
       pending = [call_start_recording_flow], main = EventLoop,
       threads = [\<lparr> pc = Finished, written = 2048 \<rparr>],
       trace = [SetText ''hi'', Joined 0, Transcribe 0, SinkClosed 0, Written 0, Started 0, Load] \<rparr>"
  by (simp add: run_append first_session_state) (simp add: eval_defs)

lemma device_fails_then_stop:
  "run pcm16 [Run 1 False None, Click True, Callback True None]
     (step pcm16 (Callback True None) (run pcm16 (first_session @ [Click True]) init)) =
     \<lparr> state = processing, image = processing_icon,
       scribe = \<lparr> model = Some 7, record_thread = Some 1, result = Some ''hi'',
                  capture = Some False \<rparr>,
       pending = [], main = InJoin 1,
       threads = [\<lparr> pc = Finished, written = 2048 \<rparr>,
                  \<lparr> pc = Raised DeviceUnavailable, written = 0 \<rparr>],
       trace = [SinkClosed 1, Started 1,
                SetText ''hi'', Joined 0, Transcribe 0, SinkClosed 0, Written 0, Started 0, Load] \<rparr>"
  unfolding before_second_start by (simp add: eval_defs)

theorem stale_result_witness:
  "pending (run pcm16 (first_session @ [Click True]) init) = [call_start_recording_flow] \<and>
   model (scribe (run pcm16 (first_session @ [Click True]) init)) \<noteq> None \<and>
   length (threads (run pcm16 [Run 1 False None, Click True, Callback True None]
     (step pcm16 (Callback True None) (run pcm16 (first_session @ [Click True]) init))))
     = Suc (length (threads (run pcm16 (first_session @ [Click True]) init))) \<and>
   pc (threads (run pcm16 [Run 1 False None, Click True, Callback True None]
     (step pcm16 (Callback True None) (run pcm16 (first_session @ [Click True]) init)))
       ! length (threads (run pcm16 (first_session @ [Click True]) init)))
     = Raised DeviceUnavailable \<and>
   main (run pcm16 [Run 1 False None, Click True, Callback True None]
     (step pcm16 (Callback True None) (run pcm16 (first_session @ [Click True]) init)))
     = InJoin (length (threads (run pcm16 (first_session @ [Click True]) init))) \<and>
   stop_return (run pcm16 [Run 1 False None, Click True, Callback True None]
     (step pcm16 (Callback True None) (run pcm16 (first_session @ [Click True]) init)))
     = Some ''hi'' \<and>
   trace (step pcm16 Wake (run pcm16 [Run 1 False None, Click True, Callback True None]
     (step pcm16 (Callback True None) (run pcm16 (first_session @ [Click True]) init))))
     = [SetText ''hi'', Joined 1, SinkClosed 1, Started 1,
        SetText ''hi'', Joined 0, Transcribe 0, SinkClosed 0, Written 0, Started 0, Load]"
proof -
  let ?s = "run pcm16 (first_session @ [Click True]) init"
  let ?s1 = "step pcm16 (Callback True None) ?s"
  let ?s2 = "run pcm16 [Run 1 False None, Click True, Callback True None] ?s1"
  have h2: "pending ?s = call_start_recording_flow # []" by (simp add: before_second_start)
  have h3: "model (scribe ?s) \<noteq> None \<or> (None :: nat option) \<noteq> None"
    by (simp add: before_second_start)
  have n: "length (threads ?s) = 1" by (simp add: before_second_start)
  have h6: "length (threads ?s2) = Suc (length (threads ?s))"
    unfolding n device_fails_then_stop by simp
  have h7: "pc (threads ?s2 ! length (threads ?s)) = Raised DeviceUnavailable"
    unfolding n device_fails_then_stop by simp
  have h8: "main ?s2 = InJoin (length (threads ?s))"
    unfolding n device_fails_then_stop by simp
  have r: "result (scribe ?s) = Some ''hi''" by (simp add: before_second_start)
  have tr: "trace ?s2 = [SinkClosed 1, Started 1,
        SetText ''hi'', Joined 0, Transcribe 0, SinkClosed 0, Written 0, Started 0, Load]"
    unfolding device_fails_then_stop by simp
  from stale_result [OF refl h2 h3 refl refl h6 h7 h8 refl]
  have "stop_return ?s2 = result (scribe ?s) \<and>
        trace (step pcm16 Wake ?s2) =
          (case result (scribe ?s) of None \<Rightarrow> [] | Some w \<Rightarrow> [SetText w])
            @ Joined (length (threads ?s)) # trace ?s2"
    by blast
  then have "stop_return ?s2 = Some ''hi'' \<and>
        trace (step pcm16 Wake ?s2) = [SetText ''hi'', Joined 1, SinkClosed 1, Started 1,
        SetText ''hi'', Joined 0, Transcribe 0, SinkClosed 0, Written 0, Started 0, Load]"
    unfolding r tr n by simp
  with h2 h3 h6 h7 h8 show ?thesis by simp
qed

end
